theory Spec2Isabelle
  imports Main "HOL-Library.Word"
begin

section \<open>Machine types\<close>

text \<open>
  The fixed-width integers of \<^verbatim>\<open>fetch_request.h\<close>. A word carries no sign: the signed
  types are read with \<open>sint\<close>, \<open>size_t\<close> (64 bits on the supported targets) with \<open>unat\<close>;
  the order \<open>\<le>\<close> on words is the unsigned one. \<open>std::chrono::milliseconds\<close> is a signed
  64-bit count.

  Modelled from the spec: a time point of \<open>model::timeout_clock\<close> (\<^verbatim>\<open>model/timeout_clock.h\<close>
  is not among the sources) is a signed 64-bit count of the clock's ticks, and a tick is
  taken to be a millisecond, so that \<open>deadline = now + max_wait_time\<close> needs no
  conversion. The sum is formed in the 64-bit representation; where it overflows the
  source is undefined, and the model wraps around as the machine does.
\<close>

type_synonym int8_t = "8 word"
type_synonym int16_t = "16 word"
type_synonym int32_t = "32 word"
type_synonym int64_t = "64 word"
type_synonym size_t = "64 word"
type_synonym milliseconds = "64 word"
type_synonym time_point = "64 word"

section \<open>Types declared outside \<^verbatim>\<open>fetch_request.h\<close>\<close>

text \<open>
  Modelled from the spec: the error code of a partition result (\<^verbatim>\<open>kafka/errors.h\<close> is not
  among the sources). It is a 16-bit enumeration whose success value \<open>none\<close> is 0; every
  other value is a non-success code.
\<close>

type_synonym error_code = int16_t

definition error_code_none :: error_code where
  "error_code_none = 0"

text \<open>
  Modelled from the spec: the record payload (\<^verbatim>\<open>iobuf\<close>, declared in \<^verbatim>\<open>bytes/iobuf.h\<close>,
  not among the sources). The only observation \<^verbatim>\<open>fetch_request.h\<close> makes of a payload is
  its size in bytes, a \<open>size_t\<close>.
\<close>

record iobuf =
  size_bytes :: size_t

text \<open>
  Modelled from the spec: \<^verbatim>\<open>api_version\<close> and \<^verbatim>\<open>api_key\<close> are named 16-bit integers
  (\<^verbatim>\<open>kafka/types.h\<close> is not among the sources).
\<close>

type_synonym api_version = int16_t
type_synonym api_key = int16_t

section \<open>\<^verbatim>\<open>fetch_api\<close>\<close>

definition fetch_api_name :: string where
  "fetch_api_name = ''fetch''"

definition fetch_api_key :: api_key where
  "fetch_api_key = 1"

definition min_supported :: api_version where
  "min_supported = 4"

definition max_supported :: api_version where
  "max_supported = 10"

section \<open>\<^verbatim>\<open>fetch_request\<close>\<close>

text \<open>
  \<^verbatim>\<open>fetch_request::partition\<close> (its field \<^verbatim>\<open>id\<close> is \<open>partition_id\<close> here, since \<open>id\<close> is
  the identity function of HOL), \<^verbatim>\<open>fetch_request::topic\<close>,
  \<^verbatim>\<open>fetch_request::forgotten_topic\<close> (fields suffixed \<open>_f\<close>) and the request itself.
\<close>

record partition =
  partition_id :: int32_t
  current_leader_epoch :: int32_t
  fetch_offset :: int64_t
  log_start_offset :: int64_t
  partition_max_bytes :: int32_t

record topic =
  name :: string
  partitions :: "partition list"

record forgotten_topic =
  name_f :: string
  partitions_f :: "int32_t list"

record fetch_request =
  replica_id :: int32_t
  max_wait_time :: milliseconds
  min_bytes :: int32_t
  max_bytes :: int32_t
  isolation_level :: int8_t
  session_id :: int32_t
  session_epoch :: int32_t
  topics :: "topic list"
  forgotten_topics :: "forgotten_topic list"

text \<open>
  \<^verbatim>\<open>debounce_delay\<close>: no delay for \<^verbatim>\<open>max_wait_time <= 0\<close>, otherwise the wait time.
\<close>

definition debounce_delay :: "fetch_request \<Rightarrow> milliseconds option" where
  "debounce_delay rq =
     (if sint (max_wait_time rq) \<le> 0 then None else Some (max_wait_time rq))"

subsection \<open>Decoding\<close>

text \<open>
  Modelled from the spec: the version gate of decoding. \<^verbatim>\<open>fetch_request::decode\<close> is only
  declared in \<^verbatim>\<open>fetch_request.h\<close>; its body and the request dispatcher are not among the
  sources. A version outside \<open>[min_supported, max_supported]\<close> is rejected as a protocol
  violation before field parsing is touched; the parsing of the fields of a supported
  version is the parameter \<open>parse_fields\<close>.
\<close>

datatype decode_error = Unsupported_version | Malformed

definition version_supported :: "api_version \<Rightarrow> bool" where
  "version_supported v \<longleftrightarrow> sint min_supported \<le> sint v \<and> sint v \<le> sint max_supported"

definition decode ::
  "(8 word list \<Rightarrow> api_version \<Rightarrow> decode_error + fetch_request) \<Rightarrow>
     8 word list \<Rightarrow> api_version \<Rightarrow> decode_error + fetch_request" where
  "decode parse_fields bytes v =
     (if version_supported v then parse_fields bytes v else Inl Unsupported_version)"

section \<open>\<^verbatim>\<open>fetch_request::const_iterator\<close>\<close>

text \<open>
  The iterators point into the request's topic vector \<open>ts\<close>, which every operation takes
  as a parameter. A topic iterator is an index into \<open>ts\<close> (\<open>length ts\<close> is \<^verbatim>\<open>topics.cend()\<close>).
  A partition iterator is either value-initialised (\<open>Singular\<close>) or a position \<open>k\<close> in
  the partition vector of topic \<open>i\<close> (\<open>Partition_it i k\<close>). The field \<^verbatim>\<open>partition\<close> of
  \<^verbatim>\<open>value_type\<close> is \<open>partition'\<close> here (\<open>partition\<close> is a list function of HOL), and the
  members \<^verbatim>\<open>state_\<close> and \<^verbatim>\<open>t_end_\<close> are \<open>state\<close> and \<open>t_end\<close>.

  Dereferencing an iterator that points at no element, and incrementing a partition
  iterator that is singular or past the end, are undefined behaviour: the model
  returns \<open>None\<close> there.
\<close>

datatype partition_iterator = Singular | Partition_it nat nat

record value_type =
  new_topic :: bool
  topic :: nat
  partition' :: partition_iterator

record const_iterator =
  state :: value_type
  t_end :: nat

definition partitions_cbegin :: "nat \<Rightarrow> partition_iterator" where
  "partitions_cbegin i = Partition_it i 0"

definition partitions_cend :: "topic list \<Rightarrow> nat \<Rightarrow> partition_iterator" where
  "partitions_cend ts i = Partition_it i (length (partitions (ts ! i)))"

text \<open>
  \<^verbatim>\<open>normalize\<close>: while the partition iterator is at the end of its topic, move to the
  next topic and set \<^verbatim>\<open>new_topic\<close>; stop at the end of the topics. The loop condition
  dereferences \<^verbatim>\<open>state_.topic\<close>, which must point at a topic.
\<close>

function normalize :: "topic list \<Rightarrow> const_iterator \<Rightarrow> const_iterator option" where
  "normalize ts it =
     (if topic (state it) < length ts then
        if partition' (state it) = partitions_cend ts (topic (state it)) then
          let it1 = it\<lparr>state := (state it)\<lparr>topic := Suc (topic (state it)), new_topic := True\<rparr>\<rparr>
          in if topic (state it1) \<noteq> t_end it1 then
               normalize ts
                 (it1\<lparr>state := (state it1)\<lparr>partition' := partitions_cbegin (topic (state it1))\<rparr>\<rparr>)
             else Some it1
        else Some it
      else None)"
  by pat_completeness auto
termination
  by (relation "measure (\<lambda>(ts, it). length ts - topic (state it))") auto

declare normalize.simps [simp del]

text \<open>The constructor \<^verbatim>\<open>const_iterator(begin, end)\<close>, and \<^verbatim>\<open>cbegin\<close> and \<^verbatim>\<open>cend\<close>.\<close>

definition const_iterator_ctor :: "topic list \<Rightarrow> nat \<Rightarrow> nat \<Rightarrow> const_iterator option" where
  "const_iterator_ctor ts begin end =
     (let it = \<lparr>state = \<lparr>new_topic = True, topic = begin, partition' = Singular\<rparr>, t_end = end\<rparr>
      in if topic (state it) \<noteq> t_end it then
           normalize ts (it\<lparr>state := (state it)\<lparr>partition' := partitions_cbegin (topic (state it))\<rparr>\<rparr>)
         else Some it)"

definition cbegin :: "fetch_request \<Rightarrow> const_iterator option" where
  "cbegin rq = const_iterator_ctor (topics rq) 0 (length (topics rq))"

definition cend :: "fetch_request \<Rightarrow> const_iterator option" where
  "cend rq = const_iterator_ctor (topics rq) (length (topics rq)) (length (topics rq))"

text \<open>\<^verbatim>\<open>operator++\<close> (prefix), \<^verbatim>\<open>operator==\<close>, \<^verbatim>\<open>operator!=\<close>, and the reading of the
  topic and the partition that \<^verbatim>\<open>operator*\<close> refers to.\<close>

definition increment :: "topic list \<Rightarrow> const_iterator \<Rightarrow> const_iterator option" where
  "increment ts it =
     (case partition' (state it) of
        Singular \<Rightarrow> None
      | Partition_it i k \<Rightarrow>
          if i < length ts \<and> k < length (partitions (ts ! i)) then
            normalize ts
              (it\<lparr>state := (state it)\<lparr>partition' := Partition_it i (Suc k), new_topic := False\<rparr>\<rparr>)
          else None)"

text \<open>\<^verbatim>\<open>operator++(int)\<close>: the cursor before the increment is returned, beside the new one.\<close>

definition post_increment ::
  "topic list \<Rightarrow> const_iterator \<Rightarrow> (const_iterator \<times> const_iterator) option" where
  "post_increment ts it = map_option (Pair it) (increment ts it)"

definition iter_eq :: "const_iterator \<Rightarrow> const_iterator \<Rightarrow> bool" where
  "iter_eq a b =
     (if topic (state a) = topic (state b) then
        if topic (state a) = t_end a then True
        else partition' (state a) = partition' (state b)
      else False)"

definition iter_neq :: "const_iterator \<Rightarrow> const_iterator \<Rightarrow> bool" where
  "iter_neq a b = (\<not> iter_eq a b)"

definition deref :: "topic list \<Rightarrow> const_iterator \<Rightarrow> (bool \<times> topic \<times> partition) option" where
  "deref ts it =
     (if topic (state it) < length ts then
        (case partition' (state it) of
           Singular \<Rightarrow> None
         | Partition_it i k \<Rightarrow>
             if i < length ts \<and> k < length (partitions (ts ! i)) then
               Some (new_topic (state it), ts ! topic (state it), partitions (ts ! i) ! k)
             else None)
      else None)"

text \<open>
  The traversal of a request: the loop
  \<^verbatim>\<open>for (auto it = cbegin(); it != cend(); ++it)\<close>, which collects what each position
  refers to. It ends on every input: an increment either moves on inside a topic or
  moves to a later topic.
\<close>

function traverse_from ::
  "topic list \<Rightarrow> const_iterator \<Rightarrow> const_iterator \<Rightarrow> (bool \<times> topic \<times> partition) list option" where
  "traverse_from ts it e =
     (if iter_neq it e then
        (case deref ts it of
           None \<Rightarrow> None
         | Some v \<Rightarrow>
             (case increment ts it of
                None \<Rightarrow> None
              | Some it' \<Rightarrow> map_option ((#) v) (traverse_from ts it' e)))
      else Some [])"
  by pat_completeness auto
termination
proof (relation "measures
    [\<lambda>(ts, it, e). length ts - topic (state it),
     \<lambda>(ts, it, e). (case partition' (state it) of
                      Singular \<Rightarrow> 0
                    | Partition_it i k \<Rightarrow> length (partitions (ts ! i)) - k)]")
  show "wf (measures
    [\<lambda>(ts, it, e). length ts - topic (state it),
     \<lambda>(ts, it, e). (case partition' (state it) of
                      Singular \<Rightarrow> 0
                    | Partition_it i k \<Rightarrow> length (partitions (ts ! i)) - k)])"
    by simp
next
  fix ts :: "topic list" and it e :: const_iterator and v it'
  assume d: "deref ts it = Some v" and i: "increment ts it = Some it'"
  have progress:
    "y = x \<or> (topic (state x) < topic (state y) \<and> topic (state y) \<le> length us)"
    if "normalize us x = Some y" for us x y
    using that
  proof (induction us x rule: normalize.induct)
    case (1 us x)
    show ?case
      using "1.prems" "1.IH"
      by (subst (asm) normalize.simps) (auto simp: Let_def split: if_splits)
  qed
  from d obtain j k where lt: "topic (state it) < length ts"
    and p: "partition' (state it) = Partition_it j k"
    and k: "j < length ts" "k < length (partitions (ts ! j))"
    by (auto simp: deref_def split: if_splits partition_iterator.splits)
  let ?x = "it\<lparr>state := (state it)\<lparr>partition' := Partition_it j (Suc k), new_topic := False\<rparr>\<rparr>"
  from i p k have "normalize ts ?x = Some it'"
    by (simp add: increment_def)
  from progress [OF this]
  have "it' = ?x \<or> (topic (state it) < topic (state it') \<and> topic (state it') \<le> length ts)"
    by simp
  then show "((ts, it', e), (ts, it, e)) \<in> measures
    [\<lambda>(ts, it, e). length ts - topic (state it),
     \<lambda>(ts, it, e). (case partition' (state it) of
                      Singular \<Rightarrow> 0
                    | Partition_it i k \<Rightarrow> length (partitions (ts ! i)) - k)]"
    using lt p k by auto
qed

declare traverse_from.simps [simp del]

definition traverse :: "fetch_request \<Rightarrow> (bool \<times> topic \<times> partition) list option" where
  "traverse rq =
     (case cbegin rq of
        None \<Rightarrow> None
      | Some b \<Rightarrow> (case cend rq of None \<Rightarrow> None | Some e \<Rightarrow> traverse_from (topics rq) b e))"

text \<open>The cursor reached from \<open>it\<close> by \<open>n\<close> increments.\<close>

fun advance :: "topic list \<Rightarrow> nat \<Rightarrow> const_iterator \<Rightarrow> const_iterator option" where
  "advance ts 0 it = Some it"
| "advance ts (Suc n) it =
     (case increment ts it of
        None \<Rightarrow> None
      | Some it' \<Rightarrow> advance ts n it')"

text \<open>
  The traversal as the specification words it: each topic contributes its partitions in
  order, the first of them flagged; a topic without partitions contributes nothing.
\<close>

definition topic_group :: "topic \<Rightarrow> (bool \<times> topic \<times> partition) list" where
  "topic_group t =
     (case partitions t of
        [] \<Rightarrow> []
      | p # ps \<Rightarrow> (True, t, p) # map (\<lambda>q. (False, t, q)) ps)"

definition spec_traversal :: "topic list \<Rightarrow> (bool \<times> topic \<times> partition) list" where
  "spec_traversal ts = concat (map topic_group ts)"

definition num_partitions :: "topic list \<Rightarrow> nat" where
  "num_partitions ts = sum_list (map (\<lambda>t. length (partitions t)) ts)"

text \<open>
  For the proofs: the elements that remain from position \<open>k\<close> of topic \<open>i\<close> on, the
  cursor at such a position, and the cursor \<^verbatim>\<open>cend()\<close> returns.
\<close>

function walk :: "topic list \<Rightarrow> nat \<Rightarrow> nat \<Rightarrow> bool \<Rightarrow> (bool \<times> topic \<times> partition) list" where
  "walk ts i k f =
     (if i < length ts then
        if k < length (partitions (ts ! i)) then
          (f, ts ! i, partitions (ts ! i) ! k) # walk ts i (Suc k) False
        else walk ts (Suc i) 0 True
      else [])"
  by pat_completeness auto
termination
  by (relation "measures
    [\<lambda>(ts, i, k, f). length ts - i,
     \<lambda>(ts, i, k, f). length (partitions (ts ! i)) - k]") auto

declare walk.simps [simp del]

definition cursor :: "topic list \<Rightarrow> bool \<Rightarrow> nat \<Rightarrow> nat \<Rightarrow> const_iterator" where
  "cursor ts f i k =
     \<lparr>state = \<lparr>new_topic = f, topic = i, partition' = Partition_it i k\<rparr>, t_end = length ts\<rparr>"

definition end_cursor :: "topic list \<Rightarrow> const_iterator" where
  "end_cursor ts =
     \<lparr>state = \<lparr>new_topic = True, topic = length ts, partition' = Singular\<rparr>, t_end = length ts\<rparr>"

section \<open>\<^verbatim>\<open>fetch_response\<close>\<close>

text \<open>
  The fields of the response side that share a name with a field of the request side
  carry the suffix \<open>_r\<close>; \<^verbatim>\<open>fetch_response::partition\<close> is \<open>fetch_response_partition\<close>.
\<close>

record aborted_transaction =
  producer_id :: int64_t
  first_offset :: int64_t

record partition_response =
  id_r :: int32_t
  error :: error_code
  high_watermark :: int64_t
  last_stable_offset :: int64_t
  log_start_offset_r :: int64_t
  aborted_transactions :: "aborted_transaction list"
  record_set :: "iobuf option"

record fetch_response_partition =
  name_r :: string
  responses :: "partition_response list"

record fetch_response =
  throttle_time :: milliseconds
  error_r :: error_code
  session_id_r :: int32_t
  partitions_r :: "fetch_response_partition list"

text \<open>
  The default constructor sets \<^verbatim>\<open>throttle_time\<close> to 0 and leaves the partition vector
  empty; \<^verbatim>\<open>error\<close> and \<^verbatim>\<open>session_id\<close>, which it does not initialise, are parameters.
\<close>

definition fetch_response_ctor :: "error_code \<Rightarrow> int32_t \<Rightarrow> fetch_response" where
  "fetch_response_ctor e s =
     \<lparr>throttle_time = 0, error_r = e, session_id_r = s, partitions_r = []\<rparr>"

section \<open>\<^verbatim>\<open>op_context\<close>\<close>

text \<open>
  The fetch operation context. The connection handles \<^verbatim>\<open>rctx\<close> and \<^verbatim>\<open>ssg\<close> take no part
  in the budget or in the stop decision and are left out.
\<close>

record op_context =
  request :: fetch_request
  response :: fetch_response
  bytes_left :: size_t
  deadline :: "time_point option"
  response_size :: size_t
  response_error :: bool
  initial_fetch :: bool

text \<open>\<^verbatim>\<open>MAX_SIZE = 128 << 20\<close>, and the conversion \<^verbatim>\<open>size_t(request.max_bytes)\<close> of a signed
  32-bit value, which extends the sign.\<close>

definition MAX_SIZE :: size_t where
  "MAX_SIZE = push_bit 20 128"

definition size_t_of_int32 :: "int32_t \<Rightarrow> size_t" where
  "size_t_of_int32 x = scast x"

text \<open>
  The constructor, after \<^verbatim>\<open>request.decode(rctx)\<close> has produced the request \<open>rq\<close>;
  \<open>now\<close> is the reading of the clock and \<open>resp\<close> the default-constructed response.
\<close>

definition op_context_ctor :: "fetch_request \<Rightarrow> time_point \<Rightarrow> fetch_response \<Rightarrow> op_context" where
  "op_context_ctor rq now resp =
     \<lparr>request = rq,
      response = resp,
      bytes_left = min MAX_SIZE (size_t_of_int32 (max_bytes rq)),
      deadline = (case debounce_delay rq of
                    Some delay \<Rightarrow> Some (now + delay)
                  | None \<Rightarrow> None),
      response_size = 0,
      response_error = False,
      initial_fetch = True\<rparr>"

text \<open>\<^verbatim>\<open>start_response_topic\<close>: a new, empty group named after the topic, at the back.\<close>

definition start_response_topic :: "topic \<Rightarrow> op_context \<Rightarrow> op_context" where
  "start_response_topic t c =
     c\<lparr>response := (response c)\<lparr>partitions_r :=
          partitions_r (response c) @ [\<lparr>name_r = name t, responses = []\<rparr>]\<rparr>\<rparr>"

text \<open>
  \<^verbatim>\<open>add_partition_response\<close>. \<^verbatim>\<open>response.partitions.back()\<close> on an empty vector is
  undefined behaviour: the model returns \<open>None\<close> there.
\<close>

definition add_partition_response :: "partition_response \<Rightarrow> op_context \<Rightarrow> op_context option" where
  "add_partition_response r c =
     (let c1 = (case record_set r of
                  Some b \<Rightarrow> c\<lparr>response_size := response_size c + size_bytes b,
                              bytes_left := bytes_left c - min (bytes_left c) (size_bytes b)\<rparr>
                | None \<Rightarrow> c);
          ps = partitions_r (response c1)
      in if ps = [] then None
         else Some (c1\<lparr>response := (response c1)\<lparr>partitions_r :=
                butlast ps @ [(last ps)\<lparr>responses := responses (last ps) @ [r]\<rparr>]\<rparr>\<rparr>))"

text \<open>
  The users of the context, outside \<^verbatim>\<open>fetch_request.h\<close>, start a group and fold
  results in some order. A sequence of such calls is a list of
  operations, run from left to right; the run is \<open>None\<close> as soon as one call is undefined.
\<close>

datatype fetch_op = Start_response_topic topic | Add_partition_response partition_response

fun fold_ops :: "op_context \<Rightarrow> fetch_op list \<Rightarrow> op_context option" where
  "fold_ops c [] = Some c"
| "fold_ops c (Start_response_topic t # ops) = fold_ops (start_response_topic t c) ops"
| "fold_ops c (Add_partition_response r # ops) =
     (case add_partition_response r c of
        None \<Rightarrow> None
      | Some c' \<Rightarrow> fold_ops c' ops)"

text \<open>
  A run in which every folded payload is no larger than \<^verbatim>\<open>bytes_left\<close> at the moment it is
  folded: the reads kept to the byte cap they were given.
\<close>

fun reads_within_budget :: "op_context \<Rightarrow> fetch_op list \<Rightarrow> bool" where
  "reads_within_budget c [] = True"
| "reads_within_budget c (Start_response_topic t # ops) =
     reads_within_budget (start_response_topic t c) ops"
| "reads_within_budget c (Add_partition_response r # ops) =
     ((case record_set r of None \<Rightarrow> True | Some b \<Rightarrow> size_bytes b \<le> bytes_left c)
      \<and> (case add_partition_response r c of
            None \<Rightarrow> True
          | Some c' \<Rightarrow> reads_within_budget c' ops))"

text \<open>\<^verbatim>\<open>should_stop_fetch\<close>, with its cast of \<^verbatim>\<open>response_size\<close> to \<^verbatim>\<open>int32_t\<close>.\<close>

definition should_stop_fetch :: "op_context \<Rightarrow> bool" where
  "should_stop_fetch c \<longleftrightarrow>
     debounce_delay (request c) = None
     \<or> sint (ucast (response_size c) :: int32_t) \<ge> sint (min_bytes (request c))
     \<or> topics (request c) = []
     \<or> response_error c"

section \<open>Sample inputs\<close>

definition ex_partition :: "int32_t \<Rightarrow> partition" where
  "ex_partition i =
     \<lparr>partition_id = i, current_leader_epoch = - 1, fetch_offset = 0,
      log_start_offset = 0, partition_max_bytes = 1048576\<rparr>"

definition ex_topic :: "string \<Rightarrow> partition list \<Rightarrow> topic" where
  "ex_topic n ps = \<lparr>name = n, partitions = ps\<rparr>"

definition ex_topics :: "topic list" where
  "ex_topics =
     [ex_topic ''A'' [ex_partition 0, ex_partition 1],
      ex_topic ''B'' [],
      ex_topic ''C'' [ex_partition 2]]"

definition ex_request :: "milliseconds \<Rightarrow> int32_t \<Rightarrow> int32_t \<Rightarrow> topic list \<Rightarrow> fetch_request" where
  "ex_request wait minb maxb ts =
     \<lparr>replica_id = - 1, max_wait_time = wait, min_bytes = minb, max_bytes = maxb,
      isolation_level = 0, session_id = 0, session_epoch = - 1, topics = ts,
      forgotten_topics = []\<rparr>"

definition ex_result :: "error_code \<Rightarrow> size_t option \<Rightarrow> partition_response" where
  "ex_result e n =
     \<lparr>id_r = 0, error = e, high_watermark = 0, last_stable_offset = 0,
      log_start_offset_r = 0, aborted_transactions = [],
      record_set = map_option (\<lambda>k. \<lparr>size_bytes = k\<rparr>) n\<rparr>"

definition ex_context :: "milliseconds \<Rightarrow> int32_t \<Rightarrow> int32_t \<Rightarrow> op_context" where
  "ex_context wait minb maxb =
     op_context_ctor (ex_request wait minb maxb [ex_topic ''A'' [ex_partition 0]]) 0
       (fetch_response_ctor 0 0)"

lemmas ex_defs = ex_partition_def ex_topic_def ex_request_def ex_result_def ex_context_def
  op_context_ctor_def fetch_response_ctor_def start_response_topic_def
  add_partition_response_def debounce_delay_def size_t_of_int32_def MAX_SIZE_def

lemmas it_defs = traverse_def cbegin_def cend_def const_iterator_ctor_def increment_def
  iter_eq_def iter_neq_def deref_def partitions_cbegin_def partitions_cend_def
  ex_topics_def ex_topic_def ex_partition_def ex_request_def Let_def

section \<open>Casts between \<open>size_t\<close> and \<open>int32_t\<close>\<close>

lemma power_2_31: "(2::int) ^ 31 = 2147483648"
  by simp

lemma uint_less_of_unat_less:
  fixes x :: size_t
  assumes "unat x < 2147483648"
  shows "uint x < 2147483648"
  using assms by transfer simp

lemma sint_ucast_size_t:
  fixes x :: size_t
  shows "sint (ucast x :: int32_t) = signed_take_bit 31 (uint x)"
  by transfer (simp add: signed_take_bit_take_bit)

lemma signed_take_bit_31_self:
  fixes k :: int
  assumes "0 \<le> k" "k < 2147483648"
  shows "signed_take_bit 31 k = k"
proof (rule signed_take_bit_int_eq_self)
  show "- (2 ^ 31) \<le> k" using assms(1) by (simp only: power_2_31)
  show "k < 2 ^ 31" using assms(2) by (simp only: power_2_31)
qed

lemma signed_take_bit_31_le:
  fixes k :: int
  assumes "0 \<le> k"
  shows "signed_take_bit 31 k \<le> k"
proof -
  have "- (2 ^ 31) \<le> k" using assms by (simp only: power_2_31)
  then show ?thesis by (simp only: signed_take_bit_int_less_eq_self_iff)
qed

lemma sint_ucast_small:
  fixes x :: size_t
  assumes "unat x < 2147483648"
  shows "sint (ucast x :: int32_t) = int (unat x)"
  using signed_take_bit_31_self [of "uint x"] uint_less_of_unat_less [OF assms]
  by (simp only: sint_ucast_size_t) simp

lemma sint_ucast_le:
  fixes x :: size_t
  shows "sint (ucast x :: int32_t) \<le> int (unat x)"
  using signed_take_bit_31_le [of "uint x"]
  by (simp only: sint_ucast_size_t) simp

lemma MAX_SIZE_val: "MAX_SIZE = 134217728"
  by (simp add: MAX_SIZE_def)

lemma uint_size_t_of_int32:
  "uint (size_t_of_int32 x) = take_bit 64 (sint x)"
  unfolding size_t_of_int32_def by transfer simp

lemma size_t_of_int32_negative:
  assumes "sint x < 0"
  shows "uint (size_t_of_int32 x) = 18446744073709551616 + sint x"
proof -
  have lo: "- 2147483648 \<le> sint x"
    using sint_ge [of x] by simp
  have "(18446744073709551616 + sint x) mod 18446744073709551616 = 18446744073709551616 + sint x"
    using lo assms by (intro mod_pos_pos_trivial) simp_all
  then have "sint x mod 18446744073709551616 = 18446744073709551616 + sint x"
    by simp
  then show ?thesis
    by (simp add: uint_size_t_of_int32 take_bit_eq_mod)
qed

lemma unat_sub_min:
  fixes a b :: size_t
  shows "unat (a - min a b) = unat a - unat b"
proof (cases "b \<le> a")
  case True
  then show ?thesis by (simp add: min_def unat_sub)
next
  case False
  then have le: "a \<le> b"
    by simp
  then have "unat a \<le> unat b"
    by (simp add: word_le_nat_alt)
  with le show ?thesis by (simp add: min_def)
qed

lemma int_monus_max:
  fixes m n :: nat
  shows "int (m - n) = max 0 (int m - int n)"
  by (cases "n \<le> m") (simp_all add: max_def of_nat_diff)

section \<open>The stop decision\<close>

lemma should_stop_fetch_iff:
  "should_stop_fetch c \<longleftrightarrow>
     sint (max_wait_time (request c)) \<le> 0
     \<or> sint (min_bytes (request c)) \<le> sint (ucast (response_size c) :: int32_t)
     \<or> topics (request c) = []
     \<or> response_error c"
  by (simp add: should_stop_fetch_def debounce_delay_def)

text \<open>
  Claim C1, as amended. \<^verbatim>\<open>should_stop_fetch\<close> compares \<^verbatim>\<open>min_bytes\<close> with the response size
  cast to \<^verbatim>\<open>int32_t\<close>. Whenever it returns true, one of the four conditions holds: the
  debounce delay is absent (\<^verbatim>\<open>max_wait_time <= 0\<close>), the accumulated response size is at
  least \<^verbatim>\<open>min_bytes\<close>, the topic list is empty, or the error flag is set. For every
  context whose response size is below \<open>2^31\<close> (so that the cast keeps its value) it
  returns true if and only if one of the four holds. For every request with
  \<^verbatim>\<open>max_wait_time <= 0\<close> it returns true whatever has been accumulated, and so it does
  when the topic list is empty or the error flag is set.
\<close>

theorem should_stop_fetch_conditions:
  "(should_stop_fetch c \<longrightarrow>
      sint (max_wait_time (request c)) \<le> 0
      \<or> sint (min_bytes (request c)) \<le> int (unat (response_size c))
      \<or> topics (request c) = []
      \<or> response_error c)
   \<and> (unat (response_size c) < 2147483648 \<longrightarrow>
        (should_stop_fetch c \<longleftrightarrow>
           sint (max_wait_time (request c)) \<le> 0
           \<or> sint (min_bytes (request c)) \<le> int (unat (response_size c))
           \<or> topics (request c) = []
           \<or> response_error c))
   \<and> (sint (max_wait_time (request c)) \<le> 0 \<or> topics (request c) = [] \<or> response_error c
        \<longrightarrow> should_stop_fetch c)"
proof (intro conjI impI)
  assume "should_stop_fetch c"
  then show "sint (max_wait_time (request c)) \<le> 0
      \<or> sint (min_bytes (request c)) \<le> int (unat (response_size c))
      \<or> topics (request c) = []
      \<or> response_error c"
    using sint_ucast_le [of "response_size c"]
    unfolding should_stop_fetch_iff by linarith
next
  assume "unat (response_size c) < 2147483648"
  then have "sint (ucast (response_size c) :: int32_t) = int (unat (response_size c))"
    by (rule sint_ucast_small)
  then show "should_stop_fetch c \<longleftrightarrow>
           sint (max_wait_time (request c)) \<le> 0
           \<or> sint (min_bytes (request c)) \<le> int (unat (response_size c))
           \<or> topics (request c) = []
           \<or> response_error c"
    unfolding should_stop_fetch_iff by simp
next
  assume "sint (max_wait_time (request c)) \<le> 0 \<or> topics (request c) = [] \<or> response_error c"
  then show "should_stop_fetch c"
    unfolding should_stop_fetch_iff by blast
qed

text \<open>
  Three fresh contexts: no wait requested; a wait of 500 ms with \<^verbatim>\<open>min_bytes = 1\<close> and
  nothing accumulated; the same wait with \<^verbatim>\<open>min_bytes = 0\<close>.
\<close>

theorem should_stop_fetch_conditions_witness:
  "should_stop_fetch (ex_context 0 1 1048576)
   \<and> \<not> should_stop_fetch (ex_context 500 1 1048576)
   \<and> should_stop_fetch (ex_context 500 0 1048576)"
  using should_stop_fetch_conditions [of "ex_context 0 1 1048576"]
    should_stop_fetch_conditions [of "ex_context 500 1 1048576"]
    should_stop_fetch_conditions [of "ex_context 500 0 1048576"]
  by (simp add: ex_defs)

text \<open>
  Claim C1 as written fails: after a payload of \<open>2^31\<close> bytes has been folded, the
  response size is at least \<^verbatim>\<open>min_bytes = 1\<close>, yet the cast makes it negative and
  \<^verbatim>\<open>should_stop_fetch\<close> returns false.
\<close>

theorem should_stop_fetch_truncation_counterexample:
  "map_option should_stop_fetch
     (fold_ops (ex_context 500 1 1048576)
        [Start_response_topic (ex_topic ''A'' [ex_partition 0]),
         Add_partition_response (ex_result 0 (Some 2147483648))]) = Some False
   \<and> map_option response_size
     (fold_ops (ex_context 500 1 1048576)
        [Start_response_topic (ex_topic ''A'' [ex_partition 0]),
         Add_partition_response (ex_result 0 (Some 2147483648))]) = Some 2147483648
   \<and> sint (min_bytes (request (ex_context 500 1 1048576))) \<le> int (unat (2147483648 :: size_t))"
  by (simp add: ex_defs should_stop_fetch_def)

text \<open>
  Claim C8, as amended. For every context whose request has \<^verbatim>\<open>min_bytes <= 0\<close> and whose
  response size is below \<open>2^31\<close> (zero in particular), \<^verbatim>\<open>should_stop_fetch\<close> returns true,
  with or without an error, whatever \<^verbatim>\<open>max_wait_time\<close> is.
\<close>

theorem nonpositive_min_bytes_stops:
  assumes "sint (min_bytes (request c)) \<le> 0"
    and "unat (response_size c) < 2147483648"
  shows "should_stop_fetch c"
proof -
  have "sint (ucast (response_size c) :: int32_t) = int (unat (response_size c))"
    using assms(2) by (rule sint_ucast_small)
  moreover have "0 \<le> int (unat (response_size c))"
    by (rule of_nat_0_le_iff)
  ultimately have "sint (min_bytes (request c)) \<le> sint (ucast (response_size c) :: int32_t)"
    using assms(1) by linarith
  then show ?thesis
    unfolding should_stop_fetch_iff by simp
qed

theorem nonpositive_min_bytes_stops_witness:
  "sint (min_bytes (request (ex_context 500 (- 1) 1048576))) = - 1
   \<and> response_size (ex_context 500 (- 1) 1048576) = 0
   \<and> should_stop_fetch (ex_context 500 (- 1) 1048576)"
proof -
  have a: "sint (min_bytes (request (ex_context 500 (- 1) 1048576))) \<le> 0"
    by (simp add: ex_defs)
  have b: "unat (response_size (ex_context 500 (- 1) 1048576)) < 2147483648"
    by (simp add: ex_defs)
  show ?thesis
    using nonpositive_min_bytes_stops [OF a b] by (simp add: ex_defs)
qed

text \<open>
  Claim C8 as written fails: with \<^verbatim>\<open>min_bytes = 0\<close>, a wait of 500 ms, a topic and no
  error, a response size of \<open>2^31\<close> is cast to a negative number and
  \<^verbatim>\<open>should_stop_fetch\<close> returns false.
\<close>

theorem nonpositive_min_bytes_counterexample:
  "sint (min_bytes (request (ex_context 500 0 1048576))) \<le> 0
   \<and> map_option should_stop_fetch
     (fold_ops (ex_context 500 0 1048576)
        [Start_response_topic (ex_topic ''A'' [ex_partition 0]),
         Add_partition_response (ex_result 0 (Some 2147483648))]) = Some False"
  by (simp add: ex_defs should_stop_fetch_def)

section \<open>The byte budget\<close>

text \<open>
  Claim C9. For every request whose \<^verbatim>\<open>max_bytes\<close> is negative, the conversion to
  \<open>size_t\<close> yields a value of at least \<open>2^63\<close>, and the constructor sets \<^verbatim>\<open>bytes_left\<close> to
  the ceiling \<^verbatim>\<open>MAX_SIZE\<close>, which is 128 MiB.
\<close>

theorem negative_max_bytes_seed:
  assumes "sint (max_bytes rq) < 0"
  shows "9223372036854775808 \<le> unat (size_t_of_int32 (max_bytes rq))
    \<and> bytes_left (op_context_ctor rq now resp) = MAX_SIZE
    \<and> MAX_SIZE = 134217728"
proof -
  have lo: "- 2147483648 \<le> sint (max_bytes rq)"
    using sint_ge [of "max_bytes rq"] by simp
  have u: "uint (size_t_of_int32 (max_bytes rq)) = 18446744073709551616 + sint (max_bytes rq)"
    using assms by (rule size_t_of_int32_negative)
  have big: "9223372036854775808 \<le> uint (size_t_of_int32 (max_bytes rq))"
    using lo unfolding u by simp
  have "int 9223372036854775808 \<le> int (unat (size_t_of_int32 (max_bytes rq)))"
    using big by simp
  then have one: "9223372036854775808 \<le> unat (size_t_of_int32 (max_bytes rq))"
    by (simp only: of_nat_le_iff)
  have "uint MAX_SIZE \<le> uint (size_t_of_int32 (max_bytes rq))"
    using big by (simp add: MAX_SIZE_val)
  then have "MAX_SIZE \<le> size_t_of_int32 (max_bytes rq)"
    by (simp add: word_le_def)
  then have two: "bytes_left (op_context_ctor rq now resp) = MAX_SIZE"
    by (simp add: op_context_ctor_def)
  from one two MAX_SIZE_val show ?thesis by simp
qed

theorem negative_max_bytes_seed_witness:
  "sint (max_bytes (ex_request 0 1 (- 1) ex_topics)) = - 1
   \<and> bytes_left (op_context_ctor (ex_request 0 1 (- 1) ex_topics) 0 (fetch_response_ctor 0 0))
       = 134217728"
proof -
  have a: "sint (max_bytes (ex_request 0 1 (- 1) ex_topics)) < 0"
    by (simp add: ex_defs)
  show ?thesis
    using negative_max_bytes_seed [OF a, of 0 "fetch_response_ctor 0 0"]
    by (simp add: ex_request_def)
qed

section \<open>Folding partition results\<close>

lemma add_partition_response_SomeD:
  assumes "add_partition_response r c = Some c'"
  shows "partitions_r (response c) \<noteq> []"
    and "response_error c' = response_error c"
    and "request c' = request c"
    and "bytes_left c' =
      (case record_set r of
         Some b \<Rightarrow> bytes_left c - min (bytes_left c) (size_bytes b)
       | None \<Rightarrow> bytes_left c)"
    and "response_size c' =
      (case record_set r of
         Some b \<Rightarrow> response_size c + size_bytes b
       | None \<Rightarrow> response_size c)"
    and "partitions_r (response c') =
      butlast (partitions_r (response c)) @
        [(last (partitions_r (response c)))
           \<lparr>responses := responses (last (partitions_r (response c))) @ [r]\<rparr>]"
  using assms
  by (auto simp: add_partition_response_def Let_def split: option.splits if_splits)

lemma add_partition_response_None_iff:
  "add_partition_response r c = None \<longleftrightarrow> partitions_r (response c) = []"
  by (auto simp: add_partition_response_def Let_def split: option.splits)

lemma start_response_topic_simps:
  "partitions_r (response (start_response_topic t c)) =
     partitions_r (response c) @ [\<lparr>name_r = name t, responses = []\<rparr>]"
  "bytes_left (start_response_topic t c) = bytes_left c"
  "response_size (start_response_topic t c) = response_size c"
  "response_error (start_response_topic t c) = response_error c"
  "request (start_response_topic t c) = request c"
  by (simp_all add: start_response_topic_def)

text \<open>
  Claim C5. Whenever the response has a group to fold into, folding a partition result
  with a payload of size \<open>s\<close> into a context with \<^verbatim>\<open>bytes_left = b\<close> succeeds, and the new
  \<^verbatim>\<open>bytes_left\<close> is \<open>b - min b s\<close>: it is \<open>max 0 (b - s)\<close> as a number, does not wrap
  around, and does not grow.
\<close>

theorem bytes_left_saturating:
  assumes "partitions_r (response c) \<noteq> []"
    and "record_set r = Some b"
  shows "\<exists>c'. add_partition_response r c = Some c'
    \<and> bytes_left c' = bytes_left c - min (bytes_left c) (size_bytes b)
    \<and> int (unat (bytes_left c')) =
        max 0 (int (unat (bytes_left c)) - int (unat (size_bytes b)))
    \<and> bytes_left c' \<le> bytes_left c"
proof -
  from assms(1) obtain c' where c': "add_partition_response r c = Some c'"
    using add_partition_response_None_iff [of r c]
    by (cases "add_partition_response r c") auto
  have eq: "bytes_left c' = bytes_left c - min (bytes_left c) (size_bytes b)"
    using add_partition_response_SomeD(4) [OF c'] assms(2) by simp
  have u: "unat (bytes_left c') = unat (bytes_left c) - unat (size_bytes b)"
    unfolding eq by (rule unat_sub_min)
  have "int (unat (bytes_left c')) =
      max 0 (int (unat (bytes_left c)) - int (unat (size_bytes b)))"
    unfolding u by (rule int_monus_max)
  moreover have "bytes_left c' \<le> bytes_left c"
    using u by (simp add: word_le_nat_alt)
  ultimately show ?thesis using c' eq by blast
qed

text \<open>
  A budget of 1024 bytes: a payload of 100 bytes, within the budget, leaves 924; a
  payload of 4096 bytes, beyond it, leaves nothing.
\<close>

theorem bytes_left_saturating_witness:
  "bytes_left (start_response_topic (ex_topic ''A'' [ex_partition 0]) (ex_context 0 1 1024)) = 1024
   \<and> map_option bytes_left
       (add_partition_response (ex_result 0 (Some 100))
          (start_response_topic (ex_topic ''A'' [ex_partition 0]) (ex_context 0 1 1024))) = Some 924
   \<and> map_option bytes_left
       (add_partition_response (ex_result 0 (Some 4096))
          (start_response_topic (ex_topic ''A'' [ex_partition 0]) (ex_context 0 1 1024))) = Some 0"
proof -
  let ?c = "start_response_topic (ex_topic ''A'' [ex_partition 0]) (ex_context 0 1 1024)"
  have ne: "partitions_r (response ?c) \<noteq> []"
    by (simp add: start_response_topic_simps)
  have bl: "bytes_left ?c = 1024"
    by (simp add: ex_defs)
  have r1: "record_set (ex_result 0 (Some 100)) = Some \<lparr>size_bytes = 100\<rparr>"
    and r2: "record_set (ex_result 0 (Some 4096)) = Some \<lparr>size_bytes = 4096\<rparr>"
    by (simp_all add: ex_result_def)
  from bytes_left_saturating [OF ne r1] obtain c1
    where "add_partition_response (ex_result 0 (Some 100)) ?c = Some c1"
      and "bytes_left c1 = bytes_left ?c - min (bytes_left ?c) (size_bytes \<lparr>size_bytes = 100\<rparr>)"
    by blast
  then have one: "map_option bytes_left
      (add_partition_response (ex_result 0 (Some 100)) ?c) = Some 924"
    by (simp add: bl)
  from bytes_left_saturating [OF ne r2] obtain c2
    where "add_partition_response (ex_result 0 (Some 4096)) ?c = Some c2"
      and "bytes_left c2 = bytes_left ?c - min (bytes_left ?c) (size_bytes \<lparr>size_bytes = 4096\<rparr>)"
    by blast
  then have two: "map_option bytes_left
      (add_partition_response (ex_result 0 (Some 4096)) ?c) = Some 0"
    by (simp add: bl)
  from bl one two show ?thesis by simp
qed

text \<open>
  Claim C3, as amended. \<^verbatim>\<open>add_partition_response\<close> does not look at the error code of the
  result it folds: after the fold \<^verbatim>\<open>response_error\<close> has the value it had before. The flag
  is a public member; within \<^verbatim>\<open>fetch_request.h\<close> nothing sets it after the constructor.
\<close>

theorem add_partition_response_keeps_response_error:
  assumes "add_partition_response r c = Some c'"
  shows "response_error c' = response_error c"
  using assms by (rule add_partition_response_SomeD(2))

theorem add_partition_response_keeps_response_error_witness:
  "map_option response_error
     (add_partition_response (ex_result 3 None)
        ((start_response_topic (ex_topic ''A'' [ex_partition 0]) (ex_context 500 1 1024))
           \<lparr>response_error := True\<rparr>)) = Some True"
proof -
  let ?c = "(start_response_topic (ex_topic ''A'' [ex_partition 0]) (ex_context 500 1 1024))
      \<lparr>response_error := True\<rparr>"
  have a: "add_partition_response (ex_result 3 None) ?c =
      Some (the (add_partition_response (ex_result 3 None) ?c))"
    by (simp add: ex_defs)
  show ?thesis
    using add_partition_response_keeps_response_error [OF a] by (simp add: ex_defs)
qed

text \<open>
  Claim C3 as written fails: a result with error code 3 is folded into a fresh context
  and \<^verbatim>\<open>response_error\<close> is still false.
\<close>

theorem error_result_flag_counterexample:
  "error (ex_result 3 None) \<noteq> error_code_none
   \<and> map_option response_error
     (fold_ops (ex_context 500 1 1024)
        [Start_response_topic (ex_topic ''A'' [ex_partition 0]),
         Add_partition_response (ex_result 3 None)]) = Some False"
  by (simp add: ex_defs error_code_none_def)

lemma fold_ops_nonempty:
  "partitions_r (response c) \<noteq> [] \<Longrightarrow> \<exists>c'. fold_ops c ops = Some c'"
proof (induction ops arbitrary: c)
  case Nil
  then show ?case by simp
next
  case (Cons x ops)
  show ?case
  proof (cases x)
    case (Start_response_topic t)
    have "partitions_r (response (start_response_topic t c)) \<noteq> []"
      by (simp add: start_response_topic_simps)
    from Cons.IH [OF this] Start_response_topic show ?thesis by simp
  next
    case (Add_partition_response r)
    from Cons.prems obtain c1 where c1: "add_partition_response r c = Some c1"
      using add_partition_response_None_iff [of r c] by (cases "add_partition_response r c") auto
    have "partitions_r (response c1) \<noteq> []"
      using add_partition_response_SomeD(6) [OF c1] by simp
    from Cons.IH [OF this] c1 Add_partition_response show ?thesis by simp
  qed
qed

text \<open>
  Claim C10. \<^verbatim>\<open>add_partition_response\<close> is defined exactly when \<^verbatim>\<open>response.partitions\<close> is
  not empty, and then appends the result to the responses of the last group and leaves
  the other groups alone. After \<^verbatim>\<open>start_response_topic\<close> it is defined, and the result
  lands in the group just started. From a freshly constructed context, a sequence of
  calls is undefined exactly when it begins with \<^verbatim>\<open>add_partition_response\<close>, that is when
  a result is folded before any group was started.
\<close>

theorem add_partition_response_back:
  "(add_partition_response r c = None \<longleftrightarrow> partitions_r (response c) = [])
   \<and> (\<forall>c'. add_partition_response r c = Some c' \<longrightarrow>
         partitions_r (response c') =
           butlast (partitions_r (response c)) @
             [(last (partitions_r (response c)))
                \<lparr>responses := responses (last (partitions_r (response c))) @ [r]\<rparr>])
   \<and> (\<exists>c'. add_partition_response r (start_response_topic t c) = Some c'
         \<and> partitions_r (response c') =
             partitions_r (response c) @ [\<lparr>name_r = name t, responses = [r]\<rparr>])
   \<and> (fold_ops (op_context_ctor rq now (fetch_response_ctor e s)) ops = None \<longleftrightarrow>
         (\<exists>r' ops'. ops = Add_partition_response r' # ops'))"
proof (intro conjI allI impI)
  show "add_partition_response r c = None \<longleftrightarrow> partitions_r (response c) = []"
    by (rule add_partition_response_None_iff)
next
  fix c'
  assume "add_partition_response r c = Some c'"
  then show "partitions_r (response c') =
           butlast (partitions_r (response c)) @
             [(last (partitions_r (response c)))
                \<lparr>responses := responses (last (partitions_r (response c))) @ [r]\<rparr>]"
    by (rule add_partition_response_SomeD(6))
next
  have "add_partition_response r (start_response_topic t c) \<noteq> None"
    by (simp add: add_partition_response_None_iff start_response_topic_simps)
  then obtain c' where c': "add_partition_response r (start_response_topic t c) = Some c'"
    by auto
  have "partitions_r (response c') =
      partitions_r (response c) @ [\<lparr>name_r = name t, responses = [r]\<rparr>]"
    using add_partition_response_SomeD(6) [OF c']
    by (simp add: start_response_topic_simps)
  with c' show "\<exists>c'. add_partition_response r (start_response_topic t c) = Some c'
         \<and> partitions_r (response c') =
             partitions_r (response c) @ [\<lparr>name_r = name t, responses = [r]\<rparr>]"
    by blast
next
  let ?c0 = "op_context_ctor rq now (fetch_response_ctor e s)"
  have empty: "partitions_r (response ?c0) = []"
    by (simp add: op_context_ctor_def fetch_response_ctor_def)
  show "fold_ops ?c0 ops = None \<longleftrightarrow> (\<exists>r' ops'. ops = Add_partition_response r' # ops')"
  proof (cases ops)
    case Nil
    then show ?thesis by simp
  next
    case (Cons x ops')
    show ?thesis
    proof (cases x)
      case (Start_response_topic t')
      have "partitions_r (response (start_response_topic t' ?c0)) \<noteq> []"
        by (simp add: start_response_topic_simps)
      from fold_ops_nonempty [OF this, of ops'] Cons Start_response_topic
      show ?thesis by auto
    next
      case (Add_partition_response r')
      have "add_partition_response r' ?c0 = None"
        using empty by (simp add: add_partition_response_None_iff)
      with Cons Add_partition_response show ?thesis by simp
    qed
  qed
qed

text \<open>
  On a fresh context the fold is undefined; after two groups were started, two results
  both land in the second group.
\<close>

theorem add_partition_response_back_witness:
  "add_partition_response (ex_result 0 (Some 10)) (ex_context 0 1 1024) = None
   \<and> map_option (\<lambda>c. partitions_r (response c))
       (fold_ops (ex_context 0 1 1024)
          [Start_response_topic (ex_topic ''A'' []),
           Start_response_topic (ex_topic ''C'' []),
           Add_partition_response (ex_result 0 (Some 10)),
           Add_partition_response (ex_result 0 None)])
       = Some [\<lparr>name_r = ''A'', responses = []\<rparr>,
               \<lparr>name_r = ''C'', responses = [ex_result 0 (Some 10), ex_result 0 None]\<rparr>]"
  using add_partition_response_back
    [of "ex_result 0 (Some 10)" "ex_context 0 1 1024" "ex_topic ''A'' []"
      "ex_request 0 1 1024 [ex_topic ''A'' [ex_partition 0]]" 0 0 0 "[]"]
  by (simp add: ex_defs)

lemma add_within_budget:
  fixes c :: op_context
  assumes c1: "add_partition_response r c = Some c1"
    and fit: "case record_set r of None \<Rightarrow> True | Some b \<Rightarrow> size_bytes b \<le> bytes_left c"
    and inv: "unat (response_size c) + unat (bytes_left c) = n"
    and n: "n < 18446744073709551616"
  shows "unat (response_size c1) + unat (bytes_left c1) = n"
proof (cases "record_set r")
  case None
  with add_partition_response_SomeD(4,5) [OF c1] inv show ?thesis by simp
next
  case (Some b)
  with fit have le: "size_bytes b \<le> bytes_left c" by simp
  then have le': "unat (size_bytes b) \<le> unat (bytes_left c)"
    by (simp add: word_le_nat_alt)
  have bl: "bytes_left c1 = bytes_left c - size_bytes b"
    using add_partition_response_SomeD(4) [OF c1] Some le by (simp add: min_def)
  have rs: "response_size c1 = response_size c + size_bytes b"
    using add_partition_response_SomeD(5) [OF c1] Some by simp
  have "unat (response_size c) + unat (size_bytes b) < 2 ^ LENGTH(64)"
    using le' inv n by simp
  then have "unat (response_size c1) = unat (response_size c) + unat (size_bytes b)"
    unfolding rs by (simp only: unat_add_lem)
  moreover have "unat (bytes_left c1) = unat (bytes_left c) - unat (size_bytes b)"
    unfolding bl using le by (rule unat_sub)
  ultimately show ?thesis using le' inv by simp
qed

lemma fold_ops_within_budget:
  "fold_ops c ops = Some c' \<Longrightarrow> reads_within_budget c ops \<Longrightarrow>
   unat (response_size c) + unat (bytes_left c) = n \<Longrightarrow> n < 18446744073709551616 \<Longrightarrow>
   unat (response_size c') + unat (bytes_left c') = n"
proof (induction c ops rule: fold_ops.induct)
  case (1 c)
  then show ?case by simp
next
  case (2 c t ops)
  then show ?case by (simp add: start_response_topic_simps)
next
  case (3 c r ops)
  from "3.prems"(1) obtain c1 where c1: "add_partition_response r c = Some c1"
    and run: "fold_ops c1 ops = Some c'"
    by (auto split: option.splits)
  from "3.prems"(2) c1
  have fit: "case record_set r of None \<Rightarrow> True | Some b \<Rightarrow> size_bytes b \<le> bytes_left c"
    and rest: "reads_within_budget c1 ops"
    by simp_all
  have "unat (response_size c1) + unat (bytes_left c1) = n"
    using c1 fit "3.prems"(3,4) by (rule add_within_budget)
  with "3.IH" [OF c1 run rest] "3.prems"(4) show ?case by simp
qed

lemma fold_ops_bytes_left_le:
  "fold_ops c ops = Some c' \<Longrightarrow> bytes_left c' \<le> bytes_left c"
proof (induction c ops rule: fold_ops.induct)
  case (1 c)
  then show ?case by simp
next
  case (2 c t ops)
  then show ?case by (simp add: start_response_topic_simps)
next
  case (3 c r ops)
  from "3.prems" obtain c1 where c1: "add_partition_response r c = Some c1"
    and run: "fold_ops c1 ops = Some c'"
    by (auto split: option.splits)
  have "bytes_left c1 \<le> bytes_left c"
  proof (cases "record_set r")
    case None
    with add_partition_response_SomeD(4) [OF c1] show ?thesis by simp
  next
    case (Some b)
    have "unat (bytes_left c1) = unat (bytes_left c) - unat (size_bytes b)"
      using add_partition_response_SomeD(4) [OF c1] Some by (simp add: unat_sub_min)
    then show ?thesis by (simp add: word_le_nat_alt)
  qed
  with "3.IH" [OF c1 run] show ?case by simp
qed

text \<open>
  Claim C2, as amended. Let a context be constructed from a request, so that
  \<^verbatim>\<open>bytes_left\<close> is seeded with \<open>min MAX_SIZE (size_t(max_bytes))\<close>, and let any sequence of
  groups be started and partition results be folded. Then \<^verbatim>\<open>bytes_left\<close> never exceeds the
  seed. If every folded payload is no larger than \<^verbatim>\<open>bytes_left\<close> at the moment it is
  folded, then \<^verbatim>\<open>response_size\<close> and \<^verbatim>\<open>bytes_left\<close> add up to the seed, and so
  \<^verbatim>\<open>response_size\<close> never exceeds the seed.
\<close>

theorem response_size_within_seed:
  assumes run: "fold_ops (op_context_ctor rq now resp) ops = Some c"
  shows "bytes_left c \<le> min MAX_SIZE (size_t_of_int32 (max_bytes rq))
    \<and> (reads_within_budget (op_context_ctor rq now resp) ops \<longrightarrow>
         unat (response_size c) + unat (bytes_left c) =
           unat (min MAX_SIZE (size_t_of_int32 (max_bytes rq)))
         \<and> response_size c \<le> min MAX_SIZE (size_t_of_int32 (max_bytes rq)))"
proof (intro conjI impI)
  let ?c0 = "op_context_ctor rq now resp"
  let ?seed = "min MAX_SIZE (size_t_of_int32 (max_bytes rq))"
  have bl0: "bytes_left ?c0 = ?seed" and rs0: "response_size ?c0 = 0"
    by (simp_all add: op_context_ctor_def)
  show "bytes_left c \<le> ?seed"
    using fold_ops_bytes_left_le [OF run] by (simp only: bl0)
  assume fit: "reads_within_budget ?c0 ops"
  have "unat ?seed < 2 ^ LENGTH(64)"
    by (rule unsigned_less)
  then have lt: "unat ?seed < 18446744073709551616"
    by simp
  have "unat (response_size ?c0) + unat (bytes_left ?c0) = unat ?seed"
    by (simp only: bl0 rs0) simp
  from fold_ops_within_budget [OF run fit this lt]
  show sum: "unat (response_size c) + unat (bytes_left c) = unat ?seed" .
  then have "unat (response_size c) \<le> unat ?seed"
    by linarith
  then show "response_size c \<le> ?seed"
    by (simp only: word_le_nat_alt)
qed

text \<open>
  A request for at most 1024 bytes; payloads of 1000 and 24 bytes are folded, each
  within what is left: the response holds 1024 bytes and nothing is left.
\<close>

theorem response_size_within_seed_witness:
  "reads_within_budget (ex_context 0 1 1024)
     [Start_response_topic (ex_topic ''A'' [ex_partition 0]),
      Add_partition_response (ex_result 0 (Some 1000)),
      Add_partition_response (ex_result 0 (Some 24))]
   \<and> map_option response_size
     (fold_ops (ex_context 0 1 1024)
        [Start_response_topic (ex_topic ''A'' [ex_partition 0]),
         Add_partition_response (ex_result 0 (Some 1000)),
         Add_partition_response (ex_result 0 (Some 24))]) = Some 1024
   \<and> map_option bytes_left
     (fold_ops (ex_context 0 1 1024)
        [Start_response_topic (ex_topic ''A'' [ex_partition 0]),
         Add_partition_response (ex_result 0 (Some 1000)),
         Add_partition_response (ex_result 0 (Some 24))]) = Some 0"
proof -
  let ?rq = "ex_request 0 1 1024 [ex_topic ''A'' [ex_partition 0]]"
  let ?ops = "[Start_response_topic (ex_topic ''A'' [ex_partition 0]),
      Add_partition_response (ex_result 0 (Some 1000)),
      Add_partition_response (ex_result 0 (Some 24))]"
  have a: "fold_ops (op_context_ctor ?rq 0 (fetch_response_ctor 0 0)) ?ops =
      Some (the (fold_ops (op_context_ctor ?rq 0 (fetch_response_ctor 0 0)) ?ops))"
    by (simp add: ex_defs)
  show ?thesis
    using response_size_within_seed [OF a] by (simp add: ex_defs)
qed

text \<open>
  Claim C2 as written fails: the request asks for at most 1024 bytes, so \<^verbatim>\<open>bytes_left\<close> is
  seeded with 1024; one folded payload of 4096 bytes makes \<^verbatim>\<open>response_size\<close> 4096.
\<close>

theorem response_size_exceeds_seed_counterexample:
  "min MAX_SIZE (size_t_of_int32 (max_bytes (request (ex_context 0 1 1024)))) = 1024
   \<and> map_option response_size
     (fold_ops (ex_context 0 1 1024)
        [Start_response_topic (ex_topic ''A'' [ex_partition 0]),
         Add_partition_response (ex_result 0 (Some 4096))]) = Some 4096
   \<and> \<not> (4096 :: size_t) \<le> 1024"
  by (simp add: ex_defs)

text \<open>
  When the reads keep to the budget, the response size stays below \<open>2^31\<close>, and the
  stop decision is the one of the four conditions.
\<close>

lemma should_stop_fetch_within_budget:
  assumes run: "fold_ops (op_context_ctor rq now resp) ops = Some c"
    and fit: "reads_within_budget (op_context_ctor rq now resp) ops"
  shows "should_stop_fetch c \<longleftrightarrow>
     sint (max_wait_time (request c)) \<le> 0
     \<or> sint (min_bytes (request c)) \<le> int (unat (response_size c))
     \<or> topics (request c) = []
     \<or> response_error c"
proof -
  let ?c0 = "op_context_ctor rq now resp"
  let ?seed = "min MAX_SIZE (size_t_of_int32 (max_bytes rq))"
  have bl0: "bytes_left ?c0 = ?seed" and rs0: "response_size ?c0 = 0"
    by (simp_all add: op_context_ctor_def)
  have "unat ?seed < 2 ^ LENGTH(64)"
    by (rule unsigned_less)
  then have lt: "unat ?seed < 18446744073709551616"
    by simp
  have "unat (response_size ?c0) + unat (bytes_left ?c0) = unat ?seed"
    by (simp only: bl0 rs0) simp
  from fold_ops_within_budget [OF run fit this lt]
  have sum: "unat (response_size c) + unat (bytes_left c) = unat ?seed" .
  have "?seed \<le> MAX_SIZE"
    by simp
  then have "unat ?seed \<le> unat MAX_SIZE"
    by (simp only: word_le_nat_alt)
  also have "unat MAX_SIZE = 134217728"
    by (simp add: MAX_SIZE_val)
  finally have "unat (response_size c) < 2147483648"
    using sum by linarith
  then have "sint (ucast (response_size c) :: int32_t) = int (unat (response_size c))"
    by (rule sint_ucast_small)
  then show ?thesis
    unfolding should_stop_fetch_iff by simp
qed

section \<open>Partition traversal\<close>

lemma cend_eq: "cend rq = Some (end_cursor (topics rq))"
  by (simp add: cend_def const_iterator_ctor_def end_cursor_def)

lemma cbegin_eq:
  "cbegin rq =
     (if topics rq = [] then Some (end_cursor (topics rq))
      else normalize (topics rq) (cursor (topics rq) True 0 0))"
  by (auto simp: cbegin_def const_iterator_ctor_def end_cursor_def cursor_def
      partitions_cbegin_def Let_def)

lemma normalize_cursor_inside:
  assumes "i < length ts" "k < length (partitions (ts ! i))"
  shows "normalize ts (cursor ts f i k) = Some (cursor ts f i k)"
  using assms
  by (subst normalize.simps) (simp add: cursor_def partitions_cend_def)

lemma normalize_cursor_at_end:
  assumes "i < length ts" "k = length (partitions (ts ! i))"
  shows "normalize ts (cursor ts f i k) =
     (if Suc i < length ts then normalize ts (cursor ts True (Suc i) 0)
      else Some (\<lparr>state = \<lparr>new_topic = True, topic = length ts, partition' = Partition_it i k\<rparr>,
                   t_end = length ts\<rparr>))"
  using assms
  by (subst normalize.simps)
    (auto simp: cursor_def partitions_cend_def partitions_cbegin_def Let_def)

lemma iter_neq_cursor:
  "i < length ts \<Longrightarrow> iter_neq (cursor ts f i k) (end_cursor ts)"
  by (simp add: iter_neq_def iter_eq_def cursor_def end_cursor_def)

lemma iter_eq_past:
  "iter_eq \<lparr>state = \<lparr>new_topic = f, topic = length ts, partition' = p\<rparr>, t_end = length ts\<rparr>
     (end_cursor ts)"
  by (simp add: iter_eq_def end_cursor_def)

lemma deref_cursor:
  "i < length ts \<Longrightarrow> k < length (partitions (ts ! i)) \<Longrightarrow>
   deref ts (cursor ts f i k) = Some (f, ts ! i, partitions (ts ! i) ! k)"
  by (simp add: deref_def cursor_def)

lemma increment_cursor:
  "i < length ts \<Longrightarrow> k < length (partitions (ts ! i)) \<Longrightarrow>
   increment ts (cursor ts f i k) = normalize ts (cursor ts False i (Suc k))"
  by (simp add: increment_def cursor_def)

text \<open>
  From a position inside the request, after normalising, the loop collects exactly the
  elements that remain.
\<close>

lemma traverse_from_walk:
  "i < length ts \<Longrightarrow> k \<le> length (partitions (ts ! i)) \<Longrightarrow>
   \<exists>y. normalize ts (cursor ts f i k) = Some y
     \<and> traverse_from ts y (end_cursor ts) = Some (walk ts i k f)"
proof (induction ts i k f rule: walk.induct)
  case (1 ts i k f)
  show ?case
  proof (cases "k < length (partitions (ts ! i))")
    case True
    from "1.IH"(1) [OF "1.prems"(1) True "1.prems"(1)] True
    obtain y where y: "normalize ts (cursor ts False i (Suc k)) = Some y"
      and t: "traverse_from ts y (end_cursor ts) = Some (walk ts i (Suc k) False)"
      by auto
    have "traverse_from ts (cursor ts f i k) (end_cursor ts) =
        Some ((f, ts ! i, partitions (ts ! i) ! k) # walk ts i (Suc k) False)"
      using "1.prems"(1) True y t
      by (subst traverse_from.simps)
        (simp add: iter_neq_cursor deref_cursor increment_cursor)
    also have "(f, ts ! i, partitions (ts ! i) ! k) # walk ts i (Suc k) False = walk ts i k f"
      using "1.prems"(1) True by (subst (2) walk.simps) simp
    finally show ?thesis
      using normalize_cursor_inside [OF "1.prems"(1) True] by simp
  next
    case False
    with "1.prems"(2) have k: "k = length (partitions (ts ! i))" by simp
    have w: "walk ts i k f = walk ts (Suc i) 0 True"
      using "1.prems"(1) False by (subst walk.simps) simp
    show ?thesis
    proof (cases "Suc i < length ts")
      case True
      from "1.IH"(2) [OF "1.prems"(1) False True]
      obtain y where "normalize ts (cursor ts True (Suc i) 0) = Some y"
        and "traverse_from ts y (end_cursor ts) = Some (walk ts (Suc i) 0 True)"
        by auto
      then show ?thesis
        using normalize_cursor_at_end [OF "1.prems"(1) k] True w by simp
    next
      case False
      then have "walk ts (Suc i) 0 True = []"
        by (subst walk.simps) simp
      moreover have "traverse_from ts
          \<lparr>state = \<lparr>new_topic = True, topic = length ts, partition' = Partition_it i k\<rparr>,
            t_end = length ts\<rparr> (end_cursor ts) = Some []"
        by (subst traverse_from.simps) (simp add: iter_neq_def iter_eq_past)
      ultimately show ?thesis
        using normalize_cursor_at_end [OF "1.prems"(1) k] False w by simp
    qed
  qed
qed

lemma walk_closed:
  "i < length ts \<Longrightarrow> k \<le> length (partitions (ts ! i)) \<Longrightarrow>
   walk ts i k f =
     (case drop k (partitions (ts ! i)) of
        [] \<Rightarrow> []
      | p # ps \<Rightarrow> (f, ts ! i, p) # map (\<lambda>q. (False, ts ! i, q)) ps)
     @ spec_traversal (drop (Suc i) ts)"
proof (induction ts i k f rule: walk.induct)
  case (1 ts i k f)
  show ?case
  proof (cases "k < length (partitions (ts ! i))")
    case True
    have d: "drop k (partitions (ts ! i)) =
        partitions (ts ! i) ! k # drop (Suc k) (partitions (ts ! i))"
      using True by (simp add: Cons_nth_drop_Suc)
    have "walk ts i k f = (f, ts ! i, partitions (ts ! i) ! k) # walk ts i (Suc k) False"
      using "1.prems"(1) True by (subst walk.simps) simp
    also have "walk ts i (Suc k) False =
        (case drop (Suc k) (partitions (ts ! i)) of
           [] \<Rightarrow> []
         | p # ps \<Rightarrow> (False, ts ! i, p) # map (\<lambda>q. (False, ts ! i, q)) ps)
        @ spec_traversal (drop (Suc i) ts)"
      using "1.IH"(1) [OF "1.prems"(1) True "1.prems"(1)] True by simp
    also have "(case drop (Suc k) (partitions (ts ! i)) of
           [] \<Rightarrow> []
         | p # ps \<Rightarrow> (False, ts ! i, p) # map (\<lambda>q. (False, ts ! i, q)) ps)
        = map (\<lambda>q. (False, ts ! i, q)) (drop (Suc k) (partitions (ts ! i)))"
      by (simp split: list.splits)
    finally show ?thesis
      by (simp add: d)
  next
    case False
    with "1.prems"(2) have k: "k = length (partitions (ts ! i))" by simp
    have w: "walk ts i k f = walk ts (Suc i) 0 True"
      using "1.prems"(1) False by (subst walk.simps) simp
    show ?thesis
    proof (cases "Suc i < length ts")
      case True
      have "drop (Suc i) ts = ts ! Suc i # drop (Suc (Suc i)) ts"
        using True by (simp add: Cons_nth_drop_Suc)
      then have "spec_traversal (drop (Suc i) ts) =
          topic_group (ts ! Suc i) @ spec_traversal (drop (Suc (Suc i)) ts)"
        by (simp add: spec_traversal_def)
      with "1.IH"(2) [OF "1.prems"(1) False True] w k show ?thesis
        by (simp add: topic_group_def)
    next
      case False
      then have "walk ts (Suc i) 0 True = []"
        by (subst walk.simps) simp
      with w k False show ?thesis
        by (simp add: spec_traversal_def)
    qed
  qed
qed

lemma walk_start: "walk ts 0 0 True = spec_traversal ts"
proof (cases ts)
  case Nil
  then show ?thesis by (subst walk.simps) (simp add: spec_traversal_def)
next
  case (Cons t ts')
  then have "walk ts 0 0 True = topic_group (ts ! 0) @ spec_traversal (drop (Suc 0) ts)"
    using walk_closed [of 0 ts 0 True] by (simp add: topic_group_def cong: list.case_cong)
  with Cons show ?thesis by (simp add: spec_traversal_def)
qed

lemma traverse_spec: "traverse rq = Some (spec_traversal (topics rq))"
proof (cases "topics rq = []")
  case True
  have "traverse_from [] (end_cursor []) (end_cursor []) = Some []"
    by (subst traverse_from.simps) (simp add: iter_neq_def iter_eq_def)
  with True show ?thesis
    by (simp add: traverse_def cbegin_eq cend_eq spec_traversal_def)
next
  case False
  then have "0 < length (topics rq)" by simp
  from traverse_from_walk [OF this, of 0 True]
  obtain y where "normalize (topics rq) (cursor (topics rq) True 0 0) = Some y"
    and "traverse_from (topics rq) y (end_cursor (topics rq)) = Some (walk (topics rq) 0 0 True)"
    by auto
  with False show ?thesis
    by (simp add: traverse_def cbegin_eq cend_eq walk_start)
qed

lemma topic_group_unflagged:
  "map snd (topic_group t) = map (Pair t) (partitions t)"
  by (simp add: topic_group_def split: list.splits)

lemma spec_traversal_unflagged:
  "map snd (spec_traversal ts) = concat (map (\<lambda>t. map (Pair t) (partitions t)) ts)"
  by (induction ts) (simp_all add: spec_traversal_def topic_group_unflagged)

lemma topic_group_flags:
  "map fst (topic_group t) =
     (case partitions t of [] \<Rightarrow> [] | p # ps \<Rightarrow> True # replicate (length ps) False)"
  by (simp add: topic_group_def map_replicate_const comp_def split: list.splits)

text \<open>
  Claim C4. The traversal from \<^verbatim>\<open>cbegin\<close> to \<^verbatim>\<open>cend\<close> is defined for every request and
  yields the traversal of the specification: without the flags, the topics in request
  order, each paired with its partitions in order, where a topic without partitions
  contributes nothing; and within what a topic contributes, the flag is true on the
  first element and false on the others. For the topics
  \<open>[A: [p0, p1], B: [], C: [p2]]\<close> it yields exactly
  \<open>[(True, A, p0), (False, A, p1), (True, C, p2)]\<close>.
\<close>

theorem traverse_request_order:
  "traverse rq = Some (spec_traversal (topics rq))
   \<and> map snd (spec_traversal (topics rq)) =
       concat (map (\<lambda>t. map (Pair t) (partitions t)) (topics rq))
   \<and> map fst (spec_traversal (topics rq)) =
       concat (map (\<lambda>t. case partitions t of
                           [] \<Rightarrow> []
                         | p # ps \<Rightarrow> True # replicate (length ps) False) (topics rq))
   \<and> (topics rq =
        [\<lparr>name = ''A'', partitions = [p0, p1]\<rparr>,
         \<lparr>name = ''B'', partitions = []\<rparr>,
         \<lparr>name = ''C'', partitions = [p2]\<rparr>] \<longrightarrow>
      traverse rq =
        Some [(True, \<lparr>name = ''A'', partitions = [p0, p1]\<rparr>, p0),
              (False, \<lparr>name = ''A'', partitions = [p0, p1]\<rparr>, p1),
              (True, \<lparr>name = ''C'', partitions = [p2]\<rparr>, p2)])"
proof (intro conjI impI)
  show "traverse rq = Some (spec_traversal (topics rq))"
    by (rule traverse_spec)
  show "map snd (spec_traversal (topics rq)) =
       concat (map (\<lambda>t. map (Pair t) (partitions t)) (topics rq))"
    by (rule spec_traversal_unflagged)
  show "map fst (spec_traversal (topics rq)) =
       concat (map (\<lambda>t. case partitions t of
                           [] \<Rightarrow> []
                         | p # ps \<Rightarrow> True # replicate (length ps) False) (topics rq))"
    by (simp add: spec_traversal_def map_concat comp_def topic_group_flags)
next
  assume "topics rq =
        [\<lparr>name = ''A'', partitions = [p0, p1]\<rparr>,
         \<lparr>name = ''B'', partitions = []\<rparr>,
         \<lparr>name = ''C'', partitions = [p2]\<rparr>]"
  then show "traverse rq =
        Some [(True, \<lparr>name = ''A'', partitions = [p0, p1]\<rparr>, p0),
              (False, \<lparr>name = ''A'', partitions = [p0, p1]\<rparr>, p1),
              (True, \<lparr>name = ''C'', partitions = [p2]\<rparr>, p2)]"
    by (simp add: traverse_spec spec_traversal_def topic_group_def)
qed

theorem traverse_request_order_witness:
  "traverse (ex_request 0 1 1048576 ex_topics) =
     Some [(True, ex_topic ''A'' [ex_partition 0, ex_partition 1], ex_partition 0),
           (False, ex_topic ''A'' [ex_partition 0, ex_partition 1], ex_partition 1),
           (True, ex_topic ''C'' [ex_partition 2], ex_partition 2)]"
  using traverse_request_order
    [of "ex_request 0 1 1048576 ex_topics" "ex_partition 0" "ex_partition 1" "ex_partition 2"]
  by (simp add: ex_request_def ex_topics_def ex_topic_def spec_traversal_def topic_group_def)

text \<open>
  The same traversal, computed step by step from the definitions of the constructor,
  \<^verbatim>\<open>normalize\<close>, the increment and the comparison.
\<close>

lemma traverse_example_evaluated:
  "traverse (ex_request 0 1 1048576 ex_topics) =
     Some [(True, ex_topic ''A'' [ex_partition 0, ex_partition 1], ex_partition 0),
           (False, ex_topic ''A'' [ex_partition 0, ex_partition 1], ex_partition 1),
           (True, ex_topic ''C'' [ex_partition 2], ex_partition 2)]"
  by (simp add: it_defs normalize.simps traverse_from.simps)

section \<open>Comparing cursors\<close>

lemma length_topic_group: "length (topic_group t) = length (partitions t)"
  by (simp add: topic_group_def split: list.splits)

lemma length_spec_traversal: "length (spec_traversal ts) = num_partitions ts"
  by (induction ts) (simp_all add: spec_traversal_def num_partitions_def length_topic_group)

text \<open>
  From a position inside the request, after normalising, every number of increments up
  to the number of remaining elements is defined, and the cursor reached compares equal
  to \<^verbatim>\<open>cend()\<close> exactly after the last of them, when its topic position is the end.
\<close>

lemma advance_walk:
  "i < length ts \<Longrightarrow> k \<le> length (partitions (ts ! i)) \<Longrightarrow>
   \<exists>y. normalize ts (cursor ts f i k) = Some y
     \<and> (\<forall>n \<le> length (walk ts i k f). \<exists>z. advance ts n y = Some z
           \<and> (iter_eq z (end_cursor ts) \<longleftrightarrow> n = length (walk ts i k f))
           \<and> (iter_eq z (end_cursor ts) \<longleftrightarrow> topic (state z) = length ts))"
proof (induction ts i k f rule: walk.induct)
  case (1 ts i k f)
  show ?case
  proof (cases "k < length (partitions (ts ! i))")
    case True
    let ?y = "cursor ts f i k"
    from "1.IH"(1) [OF "1.prems"(1) True "1.prems"(1)] True
    obtain y' where y': "normalize ts (cursor ts False i (Suc k)) = Some y'"
      and adv: "\<And>n. n \<le> length (walk ts i (Suc k) False) \<Longrightarrow>
          \<exists>z. advance ts n y' = Some z
            \<and> (iter_eq z (end_cursor ts) \<longleftrightarrow> n = length (walk ts i (Suc k) False))
            \<and> (iter_eq z (end_cursor ts) \<longleftrightarrow> topic (state z) = length ts)"
      by auto
    have w: "walk ts i k f = (f, ts ! i, partitions (ts ! i) ! k) # walk ts i (Suc k) False"
      using "1.prems"(1) True by (subst walk.simps) simp
    have neq: "\<not> iter_eq ?y (end_cursor ts)"
      using iter_neq_cursor [OF "1.prems"(1), of f k] by (simp add: iter_neq_def)
    have top: "topic (state ?y) \<noteq> length ts"
      using "1.prems"(1) by (simp add: cursor_def)
    have inc: "increment ts ?y = Some y'"
      using "1.prems"(1) True y' by (simp add: increment_cursor)
    have "\<exists>z. advance ts n ?y = Some z
            \<and> (iter_eq z (end_cursor ts) \<longleftrightarrow> n = length (walk ts i k f))
            \<and> (iter_eq z (end_cursor ts) \<longleftrightarrow> topic (state z) = length ts)"
      if n: "n \<le> length (walk ts i k f)" for n
    proof (cases n)
      case 0
      with neq top w show ?thesis by simp
    next
      case (Suc m)
      with n w have "m \<le> length (walk ts i (Suc k) False)" by simp
      from adv [OF this] Suc inc w show ?thesis by simp
    qed
    then show ?thesis
      using normalize_cursor_inside [OF "1.prems"(1) True] by simp
  next
    case False
    with "1.prems"(2) have k: "k = length (partitions (ts ! i))" by simp
    have w: "walk ts i k f = walk ts (Suc i) 0 True"
      using "1.prems"(1) False by (subst walk.simps) simp
    show ?thesis
    proof (cases "Suc i < length ts")
      case True
      from "1.IH"(2) [OF "1.prems"(1) False True]
      show ?thesis
        using normalize_cursor_at_end [OF "1.prems"(1) k] True w by simp
    next
      case False
      then have "walk ts (Suc i) 0 True = []"
        by (subst walk.simps) simp
      then show ?thesis
        using normalize_cursor_at_end [OF "1.prems"(1) k] False w
        by (simp add: iter_eq_past)
    qed
  qed
qed

lemma iter_eq_iff:
  "iter_eq a b \<longleftrightarrow>
     topic (state a) = topic (state b)
     \<and> (topic (state a) \<noteq> t_end a \<longrightarrow> partition' (state a) = partition' (state b))"
  by (simp add: iter_eq_def)

text \<open>
  Claim C6. Two cursors compare equal if and only if they are at the same topic
  position and, unless that position is the end of the topics, at the same partition
  position. A cursor reached from \<^verbatim>\<open>cbegin()\<close> by \<open>n\<close> increments, for every \<open>n\<close> up to the
  number of partitions of the request, exists, and it compares equal to \<^verbatim>\<open>cend()\<close>
  exactly when \<open>n\<close> is that number, that is exactly when its topic position is the end:
  every topic has been exhausted.
\<close>

theorem iter_eq_positions:
  "(iter_eq a b \<longleftrightarrow>
      topic (state a) = topic (state b)
      \<and> (topic (state a) \<noteq> t_end a \<longrightarrow> partition' (state a) = partition' (state b)))
   \<and> (\<forall>n \<le> num_partitions (topics rq).
        \<exists>b e z. cbegin rq = Some b \<and> cend rq = Some e
          \<and> advance (topics rq) n b = Some z
          \<and> (iter_eq z e \<longleftrightarrow> n = num_partitions (topics rq))
          \<and> (iter_eq z e \<longleftrightarrow> topic (state z) = length (topics rq)))"
proof (intro conjI allI impI)
  show "iter_eq a b \<longleftrightarrow>
      topic (state a) = topic (state b)
      \<and> (topic (state a) \<noteq> t_end a \<longrightarrow> partition' (state a) = partition' (state b))"
    by (rule iter_eq_iff)
next
  fix n
  let ?ts = "topics rq"
  assume n: "n \<le> num_partitions ?ts"
  show "\<exists>b e z. cbegin rq = Some b \<and> cend rq = Some e
          \<and> advance ?ts n b = Some z
          \<and> (iter_eq z e \<longleftrightarrow> n = num_partitions ?ts)
          \<and> (iter_eq z e \<longleftrightarrow> topic (state z) = length ?ts)"
  proof (cases "?ts = []")
    case True
    with n show ?thesis
      by (simp add: cbegin_eq cend_eq iter_eq_def end_cursor_def num_partitions_def)
  next
    case False
    then have "0 < length ?ts" by simp
    from advance_walk [OF this, of 0 True]
    obtain y where y: "normalize ?ts (cursor ?ts True 0 0) = Some y"
      and adv: "\<And>m. m \<le> length (walk ?ts 0 0 True) \<Longrightarrow>
          \<exists>z. advance ?ts m y = Some z
            \<and> (iter_eq z (end_cursor ?ts) \<longleftrightarrow> m = length (walk ?ts 0 0 True))
            \<and> (iter_eq z (end_cursor ?ts) \<longleftrightarrow> topic (state z) = length ?ts)"
      by auto
    have len: "length (walk ?ts 0 0 True) = num_partitions ?ts"
      by (simp add: walk_start length_spec_traversal)
    from adv [of n] n len False y show ?thesis
      by (simp add: cbegin_eq cend_eq)
  qed
qed

text \<open>
  The request with topics \<open>A\<close> (two partitions), \<open>B\<close> (none) and \<open>C\<close> (one): the cursor
  after two increments is not yet \<^verbatim>\<open>cend()\<close>, the cursor after three is; and a cursor
  that reached the end by increments equals \<^verbatim>\<open>cend()\<close> although its partition position
  differs.
\<close>

theorem iter_eq_positions_witness:
  "num_partitions ex_topics = 3
   \<and> map_option (\<lambda>z. iter_eq z (end_cursor ex_topics))
       (Option.bind (cbegin (ex_request 0 1 1048576 ex_topics)) (advance ex_topics 2))
       = Some False
   \<and> map_option (\<lambda>z. iter_eq z (end_cursor ex_topics))
       (Option.bind (cbegin (ex_request 0 1 1048576 ex_topics)) (advance ex_topics 3))
       = Some True
   \<and> map_option (\<lambda>z. partition' (state z))
       (Option.bind (cbegin (ex_request 0 1 1048576 ex_topics)) (advance ex_topics 3))
       = Some (Partition_it 2 1)
   \<and> cend (ex_request 0 1 1048576 ex_topics) = Some (end_cursor ex_topics)
   \<and> partition' (state (end_cursor ex_topics)) = Singular"
  using iter_eq_positions
    [of "end_cursor ex_topics" "end_cursor ex_topics" "ex_request 0 1 1048576 ex_topics"]
  by (simp add: it_defs normalize.simps eval_nat_numeral end_cursor_def num_partitions_def)

section \<open>Supported versions\<close>

text \<open>
  Claim C7. The supported versions of the fetch request are 4 to 10 inclusive
  (\<^verbatim>\<open>min_supported = 4\<close>, \<^verbatim>\<open>max_supported = 10\<close>). Decoding at a version outside this range,
  such as version 3, is rejected with the version error whatever the bytes and whatever
  the field parser would do: no field is parsed.
\<close>

theorem fetch_version_range:
  "min_supported = 4 \<and> max_supported = 10
   \<and> (version_supported v \<longleftrightarrow> 4 \<le> sint v \<and> sint v \<le> 10)
   \<and> (\<not> version_supported v \<longrightarrow> decode parse_fields bytes v = Inl Unsupported_version)
   \<and> (version_supported v \<longrightarrow> decode parse_fields bytes v = parse_fields bytes v)
   \<and> decode parse_fields bytes 3 = Inl Unsupported_version"
  by (simp add: min_supported_def max_supported_def version_supported_def decode_def)

theorem fetch_version_range_witness:
  "decode (\<lambda>bytes v. Inl Malformed) [] 3 = Inl Unsupported_version
   \<and> decode (\<lambda>bytes v. Inl Malformed) [] 11 = Inl Unsupported_version
   \<and> decode (\<lambda>bytes v. Inl Malformed) [] 4 = Inl Malformed
   \<and> version_supported 4 \<and> version_supported 10"
proof -
  have a: "decode (\<lambda>bytes v. Inl Malformed) [] 3 = Inl Unsupported_version"
    using fetch_version_range [of 3 "\<lambda>bytes v. Inl Malformed" "[]"] by blast
  have b: "\<not> version_supported 11" and c: "version_supported 4" and d: "version_supported 10"
    by (simp_all add: min_supported_def max_supported_def version_supported_def)
  have "decode (\<lambda>bytes v. Inl Malformed) [] 11 = Inl Unsupported_version"
    using fetch_version_range [of 11 "\<lambda>bytes v. Inl Malformed" "[]"] b by blast
  moreover have "decode (\<lambda>bytes v. Inl Malformed) [] 4 = Inl Malformed"
    using fetch_version_range [of 4 "\<lambda>bytes v. Inl Malformed" "[]"] c by blast
  ultimately show ?thesis
    using a c d by blast
qed

end
